theory Spec2Isabelle
  imports Main "HOL-Library.Word" "HOL-Library.Multiset"
begin

unbundle bit_operations_syntax

section \<open>FastBinning (Iterators.h)\<close>

type_synonym u32 = "32 word"
type_synonym u64 = "64 word"
type_synonym u128 = "128 word"

text \<open>\<^verbatim>\<open>enum class Mode\<close> of class \<^verbatim>\<open>FastBinning\<close>, in the order of the source.\<close>

datatype Mode =
  ConstZero
  | Dividend
  | PowerOfTwo
  | FixedPoint_32
  | FixedPoint_64
  | Divide_32
  | Divide_64

text \<open>The private fields of \<^verbatim>\<open>FastBinning\<close>; \<^verbatim>\<open>bits_shift\<close> is a C++ \<^verbatim>\<open>int\<close>.\<close>

record FastBinning =
  divisor :: u64
  max_duration :: u64
  factor :: u64
  bits_shift :: int
  mode :: Mode

definition getMode :: "FastBinning \<Rightarrow> Mode" where
  "getMode b = mode b"

text \<open>
  \<^verbatim>\<open>MulHigh\<close> has three bodies, chosen by the preprocessor: the \<^verbatim>\<open>unsigned __int128\<close>
  product (GCC, clang), the \<^verbatim>\<open>__umulh\<close> intrinsic (MSVC on x64 and ARM64) and the generic
  fallback on 32-bit limbs.
\<close>

datatype platform = Int128 | Umulh | Generic

text \<open>\<^verbatim>\<open>((unsigned __int128)a * (unsigned __int128)b) >> 64\<close>, converted back to 64 bits.\<close>

definition MulHigh_int128 :: "u64 \<Rightarrow> u64 \<Rightarrow> u64" where
  "MulHigh_int128 a b = ucast (drop_bit 64 ((ucast a :: u128) * (ucast b :: u128)))"

text \<open>
  Modelled from the spec: the intrinsic \<^verbatim>\<open>__umulh\<close> is declared in the compiler's
  \<^verbatim>\<open>intrin.h\<close>, not in this repository; the comment above \<^verbatim>\<open>MulHigh\<close> and the table of
  section 4.1 give its value, the high 64 bits of the product.
\<close>

definition umulh :: "u64 \<Rightarrow> u64 \<Rightarrow> u64" where
  "umulh a b = word_of_nat ((unat a * unat b) div 2 ^ 64)"

text \<open>The generic fallback, line by line; every variable is a \<^verbatim>\<open>uint64_t\<close>.\<close>

definition MulHigh_generic :: "u64 \<Rightarrow> u64 \<Rightarrow> u64" where
  "MulHigh_generic a b =
     (let a_lo = (ucast (ucast a :: u32) :: u64);
          a_hi = drop_bit 32 a;
          b_lo = (ucast (ucast b :: u32) :: u64);
          b_hi = drop_bit 32 b;
          a_x_b_hi = a_hi * b_hi;
          a_x_b_mid = a_hi * b_lo;
          b_x_a_mid = b_hi * a_lo;
          a_x_b_lo = a_lo * b_lo;
          carry_bit = drop_bit 32
            ((ucast (ucast a_x_b_mid :: u32) :: u64) + (ucast (ucast b_x_a_mid :: u32) :: u64)
              + drop_bit 32 a_x_b_lo);
          multhi = a_x_b_hi + drop_bit 32 a_x_b_mid + drop_bit 32 b_x_a_mid + carry_bit
      in multhi)"

definition MulHigh :: "platform \<Rightarrow> u64 \<Rightarrow> u64 \<Rightarrow> u64" where
  "MulHigh p a b =
     (case p of Int128 \<Rightarrow> MulHigh_int128 a b | Umulh \<Rightarrow> umulh a b | Generic \<Rightarrow> MulHigh_generic a b)"

text \<open>
  What can go wrong in \<^verbatim>\<open>divide\<close>: its three assertions, and the two undefined
  operations of C++ that its arithmetic can reach (a division by zero, a shift by a
  negative count or by 64 and more).
\<close>

datatype failure =
  AssertDuration
  | AssertMode
  | AssertQuotient
  | DivisionByZero
  | ShiftOutOfRange

text \<open>The \<^verbatim>\<open>switch (mode)\<close> of \<^verbatim>\<open>divide\<close>: the value of \<^verbatim>\<open>out\<close>.\<close>

definition divide_switch :: "platform \<Rightarrow> Mode \<Rightarrow> FastBinning \<Rightarrow> u64 \<Rightarrow> failure + u64" where
  "divide_switch p m b duration =
     (case m of
        ConstZero \<Rightarrow> Inr 0
      | Dividend \<Rightarrow> Inr duration
      | PowerOfTwo \<Rightarrow>
          (if bits_shift b < 0 \<or> 64 \<le> bits_shift b then Inl ShiftOutOfRange
           else Inr (drop_bit (nat (bits_shift b)) duration))
      | FixedPoint_32 \<Rightarrow> Inr (drop_bit 32 (duration * factor b))
      | FixedPoint_64 \<Rightarrow> Inr (MulHigh p duration (factor b))
      | Divide_32 \<Rightarrow>
          (if (ucast (divisor b) :: u32) = 0 then Inl DivisionByZero
           else Inr (ucast ((ucast duration :: u32) div (ucast (divisor b) :: u32))))
      | Divide_64 \<Rightarrow>
          (if divisor b = 0 then Inl DivisionByZero else Inr (duration div divisor b)))"

text \<open>
  \<^verbatim>\<open>template <Mode mode> uint64_t divide(uint64_t duration) const\<close> in a build with
  assertions: the template argument is the parameter \<open>m\<close>, the object is \<open>b\<close>. The last
  assertion itself divides by \<^verbatim>\<open>divisor\<close>.
\<close>

definition divide :: "platform \<Rightarrow> Mode \<Rightarrow> FastBinning \<Rightarrow> u64 \<Rightarrow> failure + u64" where
  "divide p m b duration =
     (if \<not> duration \<le> max_duration b then Inl AssertDuration
      else if m \<noteq> mode b then Inl AssertMode
      else case divide_switch p m b duration of
          Inl e \<Rightarrow> Inl e
        | Inr out \<Rightarrow>
            if divisor b = 0 then Inl DivisionByZero
            else if out \<noteq> duration div divisor b then Inl AssertQuotient
            else Inr out)"

text \<open>
  The macro \<^verbatim>\<open>BINNING_TEMPLATE_HELPER(fun_name, binner, ...)\<close>: a switch over
  \<^verbatim>\<open>binner.getMode()\<close> that calls the instance of the function template \<^verbatim>\<open>fun_name\<close>
  for that mode with the remaining arguments.
\<close>

definition BINNING_TEMPLATE_HELPER :: "(Mode \<Rightarrow> 'a \<Rightarrow> 'r) \<Rightarrow> FastBinning \<Rightarrow> 'a \<Rightarrow> 'r" where
  "BINNING_TEMPLATE_HELPER fun_name binner args =
     (case getMode binner of
        ConstZero \<Rightarrow> fun_name ConstZero args
      | Dividend \<Rightarrow> fun_name Dividend args
      | PowerOfTwo \<Rightarrow> fun_name PowerOfTwo args
      | FixedPoint_32 \<Rightarrow> fun_name FixedPoint_32 args
      | FixedPoint_64 \<Rightarrow> fun_name FixedPoint_64 args
      | Divide_32 \<Rightarrow> fun_name Divide_32 args
      | Divide_64 \<Rightarrow> fun_name Divide_64 args)"

subsection \<open>The selection condition of each variant\<close>

text \<open>
  The fixed-point variants multiply by \<^verbatim>\<open>factor\<close> and keep the bits above bit \<open>N\<close> (32 or 64).
  With unbounded integers, \<open>(x * f) div 2 ^ N = x div d\<close> holds for every \<open>x \<le> m\<close> exactly when
  \<open>f * d\<close> reaches \<open>2 ^ N\<close> and the excess \<open>e = f * d - 2 ^ N\<close> stays small at the two worst
  durations, \<open>m\<close> itself and the last one before the multiple of \<open>d\<close> below it
  (\<open>fixed_point_exact_iff\<close> below).
\<close>

definition fixed_point_exact :: "nat \<Rightarrow> nat \<Rightarrow> nat \<Rightarrow> nat \<Rightarrow> bool" where
  "fixed_point_exact N d f m =
     (2 ^ N \<le> f * d \<and>
      (let e = f * d - 2 ^ N; q = m div d
       in q * e + (m mod d) * f < 2 ^ N \<and> (q - 1) * e + (d - 1) * f < 2 ^ N))"


subsection \<open>The constructor\<close>



text \<open>
  The rounded-up reciprocal of the divisor, scaled by \<open>2 ^ N\<close>, for a divisor that is not a
  power of two: the least factor that can be exact (\<open>fixed_point_factor_least\<close> below).
\<close>

definition fixed_point_factor :: "nat \<Rightarrow> nat \<Rightarrow> nat" where
  "fixed_point_factor N d = 2 ^ N div d + 1"

text \<open>The \<open>k\<close> with \<open>d = 2 ^ k\<close>, if the divisor is a power of two of 64 bits.\<close>

definition power_of_two_shift :: "nat \<Rightarrow> nat option" where
  "power_of_two_shift d = List.find (\<lambda>k. d = 2 ^ k) [0..<64]"

text \<open>
  Modelled from the spec: the body of the constructor is in no source file at hand. Section 2
  of the spec says that it chooses the cheapest variant that is exact over the input range, and
  section 4.1 lists the variants cheapest first. The model goes down the table and takes the
  first variant that some factor or shift makes exact: \<open>FastBinning_ctor_exact\<close> and
  \<open>FastBinning_ctor_cheapest\<close> below show that the variant it takes is exact and that no variant
  above it in the table is, whatever the factor and the shift. The fields that the chosen
  variant does not read are left at zero. For the divisor zero no variant is exact.
\<close>

definition FastBinning_ctor :: "u64 \<Rightarrow> u64 \<Rightarrow> FastBinning" where
  "FastBinning_ctor divisor' max_duration' =
     (let d = unat divisor'; m = unat max_duration';
          f32 = fixed_point_factor 32 d; f64 = fixed_point_factor 64 d;
          obj = \<lparr>divisor = divisor', max_duration = max_duration', factor = 0,
                 bits_shift = 0, mode = Divide_64\<rparr>
      in if d > m then obj\<lparr>mode := ConstZero\<rparr>
         else if d = 1 then obj\<lparr>mode := Dividend\<rparr>
         else case power_of_two_shift d of
             Some k \<Rightarrow> obj\<lparr>bits_shift := int k, mode := PowerOfTwo\<rparr>
           | None \<Rightarrow>
               if f32 < 2 ^ 32 \<and> f32 * m < 2 ^ 64 \<and> fixed_point_exact 32 d f32 m
                 then obj\<lparr>factor := word_of_nat f32, mode := FixedPoint_32\<rparr>
               else if f64 < 2 ^ 64 \<and> fixed_point_exact 64 d f64 m
                 then obj\<lparr>factor := word_of_nat f64, mode := FixedPoint_64\<rparr>
               else if d < 2 ^ 32 \<and> m < 2 ^ 32 then obj\<lparr>mode := Divide_32\<rparr>
               else obj\<lparr>mode := Divide_64\<rparr>)"

section \<open>Counter ring (Iterators.h)\<close>














section \<open>The high word of a product\<close>

lemma unat_lt64: "unat (a::u64) < 2 ^ 64"
  using unsigned_less [where 'a=nat, of a] by simp

lemma unat_lo: "unat (ucast (ucast (a::u64) :: u32) :: u64) = unat a mod 2 ^ 32"
  by (simp add: unsigned_ucast_eq take_bit_eq_mod unat_mod_distrib)

lemma unat_hi: "unat (drop_bit 32 (a::u64)) = unat a div 2 ^ 32"
  by (simp add: unat_drop_bit_eq drop_bit_eq_div unat_div_distrib)

lemma unat_mult64: "unat x * unat y < 2 ^ 64 \<Longrightarrow> unat ((x::u64) * y) = unat x * unat y"
  by (simp add: unat_word_ariths)

lemma unat_add64: "unat x + unat y < 2 ^ 64 \<Longrightarrow> unat ((x::u64) + y) = unat x + unat y"
  by (simp add: unat_word_ariths)

lemma limb_product:
  fixes W :: nat
  assumes W: "0 < W"
  shows "((ah * W + al) * (bh * W + bl)) div (W * W) =
         ah * bh + (ah * bl) div W + (bh * al) div W
           + ((ah * bl) mod W + (bh * al) mod W + (al * bl) div W) div W"
proof -
  define m1 where "m1 = ah * bl"
  define m2 where "m2 = bh * al"
  define lo where "lo = al * bl"
  define K where "K = ah * bh + m1 div W + m2 div W"
  define s where "s = m1 mod W + m2 mod W + lo div W"
  have "(ah * W + al) * (bh * W + bl) = ah * bh * (W * W) + (m1 + m2) * W + lo"
    by (simp add: m1_def m2_def lo_def algebra_simps)
  also have "m1 + m2 = (m1 div W + m2 div W) * W + (m1 mod W + m2 mod W)"
    by (simp add: algebra_simps)
  also have "ah * bh * (W * W) + ((m1 div W + m2 div W) * W + (m1 mod W + m2 mod W)) * W + lo
       = (K * W + s) * W + lo mod W"
  proof -
    have "lo = lo div W * W + lo mod W" by simp
    then have "ah * bh * (W * W) + ((m1 div W + m2 div W) * W + (m1 mod W + m2 mod W)) * W + lo
       = ah * bh * (W * W) + ((m1 div W + m2 div W) * W + (m1 mod W + m2 mod W)) * W
          + (lo div W * W + lo mod W)" by simp
    also have "\<dots> = (K * W + s) * W + lo mod W"
      by (simp add: K_def s_def algebra_simps)
    finally show ?thesis .
  qed
  finally have eq: "(ah * W + al) * (bh * W + bl) = (K * W + s) * W + lo mod W" .
  have "((K * W + s) * W + lo mod W) div (W * W) = ((K * W + s) * W + lo mod W) div W div W"
    by (simp add: div_mult2_eq)
  also have "((K * W + s) * W + lo mod W) div W = K * W + s"
    using W by simp
  also have "(K * W + s) div W = K + s div W"
    using W by simp
  finally show ?thesis
    by (simp add: eq K_def s_def m1_def m2_def lo_def)
qed


lemma MulHigh_generic_unat: "unat (MulHigh_generic a b) = (unat a * unat b) div 2 ^ 64"
proof -
  define W :: nat where "W = 2 ^ 32"
  define al where "al = unat a mod W"
  define ah where "ah = unat a div W"
  define bl where "bl = unat b mod W"
  define bh where "bh = unat b div W"
  have W2: "W * W = 2 ^ 64" and Wpos: "0 < W"
    by (simp_all add: W_def)
  have lims: "al < W" "bl < W" "ah < W" "bh < W"
    using unat_lt64 [of a] unat_lt64 [of b]
    by (simp_all add: al_def bl_def ah_def bh_def W_def less_mult_imp_div_less)
  have prod_lt: "x * y < 2 ^ 64" if "x < W" "y < W" for x y :: nat
  proof -
    have "x * y < W * W" using that by (intro mult_strict_mono') simp_all
    then show ?thesis by (simp add: W2)
  qed
  have a_lo: "unat (ucast (ucast a :: u32) :: u64) = al"
    and a_hi: "unat (drop_bit 32 a) = ah"
    and b_lo: "unat (ucast (ucast b :: u32) :: u64) = bl"
    and b_hi: "unat (drop_bit 32 b) = bh"
    by (simp_all only: unat_lo unat_hi al_def ah_def bl_def bh_def W_def)
  have hh: "unat (drop_bit 32 a * drop_bit 32 b) = ah * bh"
    using prod_lt [OF lims(3) lims(4)] by (simp only: unat_mult64 a_hi b_hi)
  have m1: "unat (drop_bit 32 a * (ucast (ucast b :: u32) :: u64)) = ah * bl"
    using prod_lt [OF lims(3) lims(2)] by (simp only: unat_mult64 a_hi b_lo)
  have m2: "unat (drop_bit 32 b * (ucast (ucast a :: u32) :: u64)) = bh * al"
    using prod_lt [OF lims(4) lims(1)] by (simp only: unat_mult64 a_lo b_hi)
  have ll: "unat ((ucast (ucast a :: u32) :: u64) * (ucast (ucast b :: u32) :: u64)) = al * bl"
    using prod_lt [OF lims(1) lims(2)] by (simp only: unat_mult64 a_lo b_lo)
  define s where "s = (ah * bl) mod W + (bh * al) mod W + (al * bl) div W"
  have s_lt: "s < 3 * W"
  proof -
    have "(ah * bl) mod W < W"
      using Wpos by (rule mod_less_divisor)
    moreover have "(bh * al) mod W < W"
      using Wpos by (rule mod_less_divisor)
    moreover have "(al * bl) div W < W"
      using prod_lt [OF lims(1) lims(2)] Wpos by (simp add: less_mult_imp_div_less W2)
    ultimately show ?thesis unfolding s_def by linarith
  qed
  have m1lo: "unat (ucast (ucast (drop_bit 32 a * (ucast (ucast b :: u32) :: u64)) :: u32) :: u64)
      = (ah * bl) mod W"
    by (simp only: unat_lo m1 W_def)
  have m2lo: "unat (ucast (ucast (drop_bit 32 b * (ucast (ucast a :: u32) :: u64)) :: u32) :: u64)
      = (bh * al) mod W"
    by (simp only: unat_lo m2 W_def)
  have lohi: "unat (drop_bit 32 ((ucast (ucast a :: u32) :: u64) * (ucast (ucast b :: u32) :: u64)))
      = (al * bl) div W"
    by (simp only: unat_hi ll W_def)
  have sum1: "unat ((ucast (ucast (drop_bit 32 a * (ucast (ucast b :: u32) :: u64)) :: u32) :: u64)
        + (ucast (ucast (drop_bit 32 b * (ucast (ucast a :: u32) :: u64)) :: u32) :: u64))
      = (ah * bl) mod W + (bh * al) mod W"
  proof -
    have "(ah * bl) mod W + (bh * al) mod W < 2 ^ 64"
      using s_lt by (simp add: s_def W_def)
    then show ?thesis by (simp only: unat_add64 m1lo m2lo)
  qed
  have sum2: "unat ((ucast (ucast (drop_bit 32 a * (ucast (ucast b :: u32) :: u64)) :: u32) :: u64)
        + (ucast (ucast (drop_bit 32 b * (ucast (ucast a :: u32) :: u64)) :: u32) :: u64)
        + drop_bit 32 ((ucast (ucast a :: u32) :: u64) * (ucast (ucast b :: u32) :: u64)))
      = s"
  proof -
    have "(ah * bl) mod W + (bh * al) mod W + (al * bl) div W < 2 ^ 64"
      using s_lt by (simp add: s_def W_def)
    then show ?thesis by (simp only: unat_add64 sum1 lohi s_def)
  qed
  have carry: "unat (drop_bit 32
        ((ucast (ucast (drop_bit 32 a * (ucast (ucast b :: u32) :: u64)) :: u32) :: u64)
        + (ucast (ucast (drop_bit 32 b * (ucast (ucast a :: u32) :: u64)) :: u32) :: u64)
        + drop_bit 32 ((ucast (ucast a :: u32) :: u64) * (ucast (ucast b :: u32) :: u64))))
      = s div W"
    by (simp only: unat_hi sum2 W_def)
  have m1hi: "unat (drop_bit 32 (drop_bit 32 a * (ucast (ucast b :: u32) :: u64))) = (ah * bl) div W"
    by (simp only: unat_hi m1 W_def)
  have m2hi: "unat (drop_bit 32 (drop_bit 32 b * (ucast (ucast a :: u32) :: u64))) = (bh * al) div W"
    by (simp only: unat_hi m2 W_def)
  have split: "unat a = ah * W + al" "unat b = bh * W + bl"
    by (simp_all add: ah_def al_def bh_def bl_def)
  have high: "(unat a * unat b) div 2 ^ 64
      = ah * bh + (ah * bl) div W + (bh * al) div W + s div W"
    unfolding split s_def W2 [symmetric] by (rule limb_product [OF Wpos])
  have high_lt: "(unat a * unat b) div 2 ^ 64 < 2 ^ 64"
  proof -
    have "unat a * unat b < 2 ^ 64 * 2 ^ 64"
      using unat_lt64 [of a] unat_lt64 [of b] by (intro mult_strict_mono') simp_all
    then show ?thesis by (simp add: less_mult_imp_div_less)
  qed
  have t1: "unat (drop_bit 32 a * drop_bit 32 b
        + drop_bit 32 (drop_bit 32 a * (ucast (ucast b :: u32) :: u64)))
      = ah * bh + (ah * bl) div W"
  proof -
    have "ah * bh + (ah * bl) div W < 2 ^ 64"
      using high_lt high by simp
    then show ?thesis by (simp only: unat_add64 hh m1hi)
  qed
  have t2: "unat (drop_bit 32 a * drop_bit 32 b
        + drop_bit 32 (drop_bit 32 a * (ucast (ucast b :: u32) :: u64))
        + drop_bit 32 (drop_bit 32 b * (ucast (ucast a :: u32) :: u64)))
      = ah * bh + (ah * bl) div W + (bh * al) div W"
  proof -
    have "ah * bh + (ah * bl) div W + (bh * al) div W < 2 ^ 64"
      using high_lt high by simp
    then show ?thesis by (simp only: unat_add64 t1 m2hi)
  qed
  have t3: "unat (drop_bit 32 a * drop_bit 32 b
        + drop_bit 32 (drop_bit 32 a * (ucast (ucast b :: u32) :: u64))
        + drop_bit 32 (drop_bit 32 b * (ucast (ucast a :: u32) :: u64))
        + drop_bit 32
        ((ucast (ucast (drop_bit 32 a * (ucast (ucast b :: u32) :: u64)) :: u32) :: u64)
        + (ucast (ucast (drop_bit 32 b * (ucast (ucast a :: u32) :: u64)) :: u32) :: u64)
        + drop_bit 32 ((ucast (ucast a :: u32) :: u64) * (ucast (ucast b :: u32) :: u64))))
      = ah * bh + (ah * bl) div W + (bh * al) div W + s div W"
  proof -
    have "ah * bh + (ah * bl) div W + (bh * al) div W + s div W < 2 ^ 64"
      using high_lt high by simp
    then show ?thesis by (simp only: unat_add64 t2 carry)
  qed
  show ?thesis
    unfolding MulHigh_generic_def Let_def by (simp only: t3 high)
qed

lemma MulHigh_int128_unat: "unat (MulHigh_int128 a b) = (unat a * unat b) div 2 ^ 64"
proof -
  have ab: "unat a * unat b < 2 ^ 128"
  proof -
    have "unat a * unat b < 2 ^ 64 * 2 ^ 64"
      using unat_lt64 [of a] unat_lt64 [of b] by (intro mult_strict_mono') simp_all
    then show ?thesis by simp
  qed
  have prod: "unat ((ucast a :: u128) * (ucast b :: u128)) = unat a * unat b"
    using ab unat_lt64 [of a] unat_lt64 [of b]
    by (simp add: unat_word_ariths unsigned_ucast_eq take_bit_eq_mod)
  have "unat (drop_bit 64 ((ucast a :: u128) * (ucast b :: u128))) = (unat a * unat b) div 2 ^ 64"
    unfolding unat_drop_bit_eq prod by (simp only: drop_bit_eq_div)
  moreover have "(unat a * unat b) div 2 ^ 64 < 2 ^ 64"
    using ab by (simp add: less_mult_imp_div_less)
  ultimately show ?thesis
    by (simp add: MulHigh_int128_def unsigned_ucast_eq take_bit_eq_mod)
qed

lemma umulh_unat: "unat (umulh a b) = (unat a * unat b) div 2 ^ 64"
proof -
  have "unat a * unat b < 2 ^ 64 * 2 ^ 64"
    using unat_lt64 [of a] unat_lt64 [of b] by (intro mult_strict_mono') simp_all
  then have "(unat a * unat b) div 2 ^ 64 < 2 ^ 64"
    by (simp add: less_mult_imp_div_less)
  then show ?thesis
    by (simp add: umulh_def unat_of_nat)
qed


text \<open>
  C9. For all 64-bit unsigned \<open>a\<close> and \<open>b\<close>, the generic fallback of \<^verbatim>\<open>MulHigh\<close> (32-bit
  limbs and an explicit carry, every operation modulo \<open>2 ^ 64\<close>) returns the upper 64 bits
  of the 128-bit product, and so agrees with the \<^verbatim>\<open>__int128\<close> and the \<^verbatim>\<open>__umulh\<close> paths.
\<close>

theorem MulHigh_generic_upper_half:
  "unat (MulHigh_generic a b) = (unat a * unat b) div 2 ^ 64
   \<and> MulHigh_generic a b = MulHigh_int128 a b
   \<and> MulHigh_generic a b = umulh a b"
proof -
  have "unat (MulHigh_generic a b) = unat (MulHigh_int128 a b)"
    by (simp only: MulHigh_generic_unat MulHigh_int128_unat)
  moreover have "unat (MulHigh_generic a b) = unat (umulh a b)"
    by (simp only: MulHigh_generic_unat umulh_unat)
  ultimately show ?thesis
    by (simp only: word_unat_eq_iff MulHigh_generic_unat simp_thms)
qed

section \<open>Dispatch through the macro\<close>

lemma BINNING_TEMPLATE_HELPER_eq:
  "BINNING_TEMPLATE_HELPER fun_name binner args = fun_name (getMode binner) args"
  by (cases "getMode binner") (simp_all add: BINNING_TEMPLATE_HELPER_def)

lemma divide_switch_failures:
  "divide_switch p m b duration = Inl e \<Longrightarrow> e = DivisionByZero \<or> e = ShiftOutOfRange"
  by (cases m) (auto simp: divide_switch_def split: if_splits)

text \<open>
  C10. A call of \<^verbatim>\<open>divide\<close> dispatched through \<^verbatim>\<open>BINNING_TEMPLATE_HELPER\<close> on a binner is the
  instance of \<^verbatim>\<open>divide\<close> for the mode that \<^verbatim>\<open>getMode()\<close> returns, for each of the seven
  modes, so the assertion \<^verbatim>\<open>mode == this->mode\<close> does not fail on that path.
\<close>

theorem BINNING_TEMPLATE_HELPER_mode_assertion:
  "BINNING_TEMPLATE_HELPER fun_name binner args = fun_name (getMode binner) args
   \<and> BINNING_TEMPLATE_HELPER (\<lambda>m. divide p m binner) binner duration
       = divide p (getMode binner) binner duration
   \<and> BINNING_TEMPLATE_HELPER (\<lambda>m. divide p m binner) binner duration \<noteq> Inl AssertMode"
proof -
  have "divide p (getMode binner) binner duration \<noteq> Inl AssertMode"
    by (auto simp: divide_def getMode_def split: sum.splits dest: divide_switch_failures)
  then show ?thesis
    by (simp only: BINNING_TEMPLATE_HELPER_eq simp_thms)
qed

section \<open>Exactness of the fixed-point variants\<close>

lemma fixed_point_split:
  fixes f d x :: nat
  assumes "2 ^ N \<le> f * d"
  shows "x * f = (x div d) * 2 ^ N + ((x div d) * (f * d - 2 ^ N) + (x mod d) * f)"
proof -
  define e where "e = f * d - 2 ^ N"
  have fd: "f * d = 2 ^ N + e"
    using assms by (simp add: e_def)
  have dist: "(a * d + r) * f = a * (f * d) + r * f" for a r
    by (simp add: algebra_simps)
  have "x * f = (x div d * d + x mod d) * f" by simp
  also have "\<dots> = (x div d) * (f * d) + (x mod d) * f" by (rule dist)
  also have "\<dots> = (x div d) * 2 ^ N + ((x div d) * e + (x mod d) * f)"
    unfolding fd by (simp add: distrib_left)
  finally show ?thesis by (simp add: e_def)
qed

lemma fixed_point_at:
  fixes f d x :: nat
  assumes "2 ^ N \<le> f * d"
  shows "((x * f) div 2 ^ N = x div d) =
         ((x div d) * (f * d - 2 ^ N) + (x mod d) * f < 2 ^ N)"
proof -
  define g where "g = (x div d) * (f * d - 2 ^ N) + (x mod d) * f"
  have "x * f = (x div d) * 2 ^ N + g"
    unfolding g_def by (rule fixed_point_split [OF assms])
  then have "(x * f) div 2 ^ N = x div d + g div 2 ^ N"
    by simp
  moreover have "(g div 2 ^ N = 0) = (g < 2 ^ N)"
    by (simp add: div_eq_0_iff)
  ultimately show ?thesis unfolding g_def [symmetric] by auto
qed

lemma weighted_sum_less:
  fixes a b c c' e f T :: nat
  assumes "a \<le> b" "c \<le> c'" "b * e + c' * f < T"
  shows "a * e + c * f < T"
proof -
  have "a * e \<le> b * e" using assms(1) by (rule mult_le_mono1)
  moreover have "c * f \<le> c' * f" using assms(2) by (rule mult_le_mono1)
  ultimately have "a * e + c * f \<le> b * e + c' * f" by (rule add_mono)
  then show ?thesis using assms(3) by (rule le_less_trans)
qed

lemma fixed_point_exact_pos: "fixed_point_exact N d f m \<Longrightarrow> 0 < d"
  by (cases "d = 0") (simp_all add: fixed_point_exact_def)

lemma fixed_point_exact_sound:
  assumes ex: "fixed_point_exact N d f m" and x: "x \<le> m"
  shows "(x * f) div 2 ^ N = x div d"
proof -
  define e where "e = f * d - 2 ^ N"
  define q where "q = m div d"
  have d: "0 < d" using ex by (rule fixed_point_exact_pos)
  have fd: "2 ^ N \<le> f * d"
    and b1: "q * e + (m mod d) * f < 2 ^ N" and b2: "(q - 1) * e + (d - 1) * f < 2 ^ N"
    using ex by (simp_all add: fixed_point_exact_def Let_def e_def q_def)
  have qle: "x div d \<le> q" using x by (simp add: q_def div_le_mono)
  have "(x div d) * e + (x mod d) * f < 2 ^ N"
  proof (cases "x div d = q")
    case True
    have "x mod d \<le> m mod d"
    proof -
      have "x = q * d + x mod d" using True by (metis div_mult_mod_eq)
      moreover have "m = q * d + m mod d" by (simp add: q_def)
      ultimately show ?thesis using x by linarith
    qed
    then show ?thesis by (rule weighted_sum_less [OF qle _ b1])
  next
    case False
    then have "x div d < q" using qle by (rule le_neq_implies_less [rotated])
    then have "x div d \<le> q - 1" by simp
    moreover have "x mod d < d" using d by (rule mod_less_divisor)
    then have "x mod d \<le> d - 1" by simp
    ultimately show ?thesis using b2 by (rule weighted_sum_less)
  qed
  then show ?thesis
    by (simp only: fixed_point_at [OF fd] e_def)
qed

lemma fixed_point_exact_complete:
  assumes d: "0 < d" and dm: "d \<le> m"
    and all: "\<And>x. x \<le> m \<Longrightarrow> (x * f) div 2 ^ N = x div d"
  shows "fixed_point_exact N d f m"
proof -
  define e where "e = f * d - 2 ^ N"
  define q where "q = m div d"
  have "(d * f) div 2 ^ N = 1" using all [OF dm] d by simp
  then have "2 ^ N \<le> d * f" by (metis div_less not_le zero_neq_one)
  then have fd: "2 ^ N \<le> f * d" by (simp add: mult.commute)
  have q1: "1 \<le> q" using d dm by (simp add: q_def Suc_leI div_greater_zero_iff)
  have "(m div d) * e + (m mod d) * f < 2 ^ N"
    using all [of m] by (simp only: fixed_point_at [OF fd] e_def)
  moreover have "(q - 1) * e + (d - 1) * f < 2 ^ N"
  proof -
    define y where "y = q * d - 1"
    have qd: "q * d \<le> m" by (simp add: q_def)
    have yeq: "y = (q - 1) * d + (d - 1)"
      using q1 d by (cases q) (simp_all add: y_def algebra_simps)
    have ym: "y \<le> m" using qd by (simp add: y_def)
    have dr: "(a * d + r) div d = a" "(a * d + r) mod d = r" if "r < d" for a r
      using that by simp_all
    have "d - 1 < d" using d by simp
    then have "y div d = q - 1" and "y mod d = d - 1"
      unfolding yeq by (rule dr)+
    moreover have "(y div d) * e + (y mod d) * f < 2 ^ N"
      using all [OF ym] by (simp only: fixed_point_at [OF fd] e_def)
    ultimately show ?thesis by simp
  qed
  ultimately show ?thesis
    using fd by (simp add: fixed_point_exact_def Let_def e_def q_def)
qed

lemma fixed_point_exact_iff:
  assumes "0 < d" "d \<le> m"
  shows "fixed_point_exact N d f m = (\<forall>x\<le>m. (x * f) div 2 ^ N = x div d)"
  using assms fixed_point_exact_sound fixed_point_exact_complete by blast

lemma dvd_two_power:
  fixes d :: nat
  shows "d dvd 2 ^ N \<Longrightarrow> \<exists>k\<le>N. d = 2 ^ k"
proof (induction N arbitrary: d)
  case 0
  then show ?case by simp
next
  case (Suc N)
  show ?case
  proof (cases "even d")
    case True
    then obtain d' where d': "d = 2 * d'" by (elim evenE)
    then have "d' dvd 2 ^ N" using Suc.prems by simp
    then obtain k where "k \<le> N" "d' = 2 ^ k" using Suc.IH by blast
    then have "Suc k \<le> Suc N \<and> d = 2 ^ Suc k" by (simp add: d')
    then show ?thesis by blast
  next
    case False
    then have "coprime d 2" by simp
    then have "d dvd 2 ^ N" using Suc.prems by (simp add: coprime_dvd_mult_right_iff)
    then obtain k where "k \<le> N" "d = 2 ^ k" using Suc.IH by blast
    then have "k \<le> Suc N \<and> d = 2 ^ k" by simp
    then show ?thesis by blast
  qed
qed




section \<open>Each variant divides exactly under its selection condition\<close>
















section \<open>What exactness of a variant forces\<close>















section \<open>The constructor takes the cheapest exact variant\<close>


lemma power_of_two_shift_iff:
  "(power_of_two_shift d \<noteq> None) = (\<exists>k<64. d = 2 ^ k)"
  by (auto simp: power_of_two_shift_def find_None_iff)

lemma power_of_two_shift_None_dvd:
  assumes "power_of_two_shift d = None" and "N \<le> 64" and "d < 2 ^ 64"
  shows "\<not> d dvd 2 ^ N"
proof
  assume "d dvd 2 ^ N"
  then obtain k where k: "k \<le> N" "d = 2 ^ k" using dvd_two_power by blast
  have "k < 64"
  proof (rule ccontr)
    assume "\<not> k < 64"
    then have "(2::nat) ^ 64 \<le> 2 ^ k" by (intro power_increasing) simp_all
    then show False using assms(3) k(2) by simp
  qed
  then have "power_of_two_shift d \<noteq> None"
    using k(2) power_of_two_shift_iff by blast
  then show False using assms(1) by contradiction
qed


text \<open>The rows of the constructor, as tests on the divisor and \<^verbatim>\<open>max_duration\<close>.\<close>

lemma FastBinning_ctor_mode:
  "mode (FastBinning_ctor d m) =
     (if unat m < unat d then ConstZero
      else if unat d = 1 then Dividend
      else if power_of_two_shift (unat d) \<noteq> None then PowerOfTwo
      else if fixed_point_factor 32 (unat d) < 2 ^ 32
          \<and> fixed_point_factor 32 (unat d) * unat m < 2 ^ 64
          \<and> fixed_point_exact 32 (unat d) (fixed_point_factor 32 (unat d)) (unat m)
        then FixedPoint_32
      else if fixed_point_factor 64 (unat d) < 2 ^ 64
          \<and> fixed_point_exact 64 (unat d) (fixed_point_factor 64 (unat d)) (unat m)
        then FixedPoint_64
      else if unat d < 2 ^ 32 \<and> unat m < 2 ^ 32 then Divide_32
      else Divide_64)"
  by (cases "power_of_two_shift (unat d)") (simp_all add: FastBinning_ctor_def Let_def)












subsection \<open>Operands of 32 bits\<close>

lemma small_excess:
  fixes q r d e f :: nat
  assumes fd: "f * d = 2 ^ 64 + e" and e: "e < d" and d: "d < 2 ^ 32" and r: "r < d"
    and x: "q * d + r < 2 ^ 32"
  shows "q * e + r * f < 2 ^ 64"
proof -
  have dpos: "0 < d" using r by simp
  have "d * (q * e + r * f) = e * (q * d) + r * (f * d)"
    by (simp add: algebra_simps)
  also have "\<dots> = e * (q * d + r) + r * 2 ^ 64"
    unfolding fd by (simp add: algebra_simps)
  finally have eq: "d * (q * e + r * f) = e * (q * d + r) + r * 2 ^ 64" .
  have "e * (q * d + r) \<le> e * 2 ^ 32"
    using x by (intro mult_le_mono2) simp
  also have "\<dots> \<le> d * 2 ^ 32" using e by (intro mult_le_mono1) simp
  also have "\<dots> < 2 ^ 32 * 2 ^ 32" using d by simp
  finally have a: "e * (q * d + r) < 2 ^ 64" by simp
  have "Suc r \<le> d" using r by simp
  then have "Suc r * 2 ^ 64 \<le> d * (2 ^ 64 :: nat)" by (rule mult_le_mono1)
  then have "e * (q * d + r) + r * 2 ^ 64 < d * 2 ^ 64" using a by simp
  then have "d * (q * e + r * f) < d * 2 ^ 64" unfolding eq .
  then show ?thesis by (simp only: mult_less_cancel1)
qed

lemma fixed_point_factor_excess:
  assumes d: "0 < d" and nd: "\<not> d dvd 2 ^ N"
  shows "\<exists>e<d. fixed_point_factor N d * d = 2 ^ N + e"
proof -
  define r :: nat where "r = 2 ^ N mod d"
  have r: "0 < r" "r < d" using d nd by (simp_all add: r_def dvd_eq_mod_eq_0)
  have "(2 :: nat) ^ N = 2 ^ N div d * d + r" by (simp add: r_def)
  then have "fixed_point_factor N d * d = 2 ^ N + (d - r)"
    using r by (simp add: fixed_point_factor_def algebra_simps)
  moreover have "d - r < d" using r by simp
  ultimately show ?thesis by blast
qed

lemma fixed_point_exact_64_small:
  assumes d: "0 < d" and dm: "d \<le> m" and nd: "\<not> d dvd 2 ^ 64"
    and d32: "d < 2 ^ 32" and m32: "m < 2 ^ 32"
  shows "fixed_point_exact 64 d (fixed_point_factor 64 d) m"
proof -
  define f where "f = fixed_point_factor 64 d"
  obtain e where e: "e < d" and fd: "f * d = 2 ^ 64 + e"
    using fixed_point_factor_excess [OF d nd] unfolding f_def by blast
  define q where "q = m div d"
  have q: "0 < q" using d dm by (simp add: q_def div_greater_zero_iff)
  have ex: "f * d - 2 ^ 64 = e" using fd by simp
  have m: "q * d + m mod d = m" by (simp add: q_def)
  have one: "q * e + (m mod d) * f < 2 ^ 64"
    using fd e d32 by (rule small_excess) (use d m m32 in simp_all)
  have "(q - 1) * d + d = q * d" using q by (simp add: algebra_simps)
  then have "(q - 1) * d + (d - 1) < q * d" using d by simp
  also have "\<dots> \<le> m" using m by simp
  finally have x: "(q - 1) * d + (d - 1) < 2 ^ 32" using m32 by simp
  have two: "(q - 1) * e + (d - 1) * f < 2 ^ 64"
    using fd e d32 by (rule small_excess) (use d x in simp_all)
  show ?thesis
    unfolding fixed_point_exact_def f_def [symmetric] ex Let_def q_def [symmetric]
    using one two fd by simp
qed

lemma fixed_point_factor_64_small:
  assumes "1 < d"
  shows "fixed_point_factor 64 d < 2 ^ 64"
proof -
  have "(2 :: nat) ^ 64 div d \<le> 2 ^ 64 div 2"
    using assms by (intro div_le_mono2) simp_all
  then show ?thesis by (simp add: fixed_point_factor_def)
qed

text \<open>
  With the rows in this order the 32-bit division is never taken for a divisor other than 0:
  when the divisor and \<^verbatim>\<open>max_duration\<close> fit in 32 bits, the 64-bit factor is exact.
\<close>

lemma FastBinning_ctor_not_Divide_32:
  assumes "d \<noteq> 0"
  shows "getMode (FastBinning_ctor d m) \<noteq> Divide_32"
proof
  assume md: "getMode (FastBinning_ctor d m) = Divide_32"
  have pos: "0 < unat d" using assms by (simp add: unat_gt_0)
  from md have dm: "unat d \<le> unat m" and d1: "unat d \<noteq> 1"
    and np: "power_of_two_shift (unat d) = None"
    and no: "\<not> (fixed_point_factor 64 (unat d) < 2 ^ 64
          \<and> fixed_point_exact 64 (unat d) (fixed_point_factor 64 (unat d)) (unat m))"
    and small: "unat d < 2 ^ 32" "unat m < 2 ^ 32"
    unfolding getMode_def FastBinning_ctor_mode by (auto split: if_splits)
  have "unat d < 2 ^ 64" using small(1) by simp
  then have nd: "\<not> unat d dvd 2 ^ 64"
    using power_of_two_shift_None_dvd [OF np, of 64] by simp
  have "1 < unat d" using pos d1 by simp
  then have "fixed_point_factor 64 (unat d) < 2 ^ 64" by (rule fixed_point_factor_64_small)
  moreover have "fixed_point_exact 64 (unat d) (fixed_point_factor 64 (unat d)) (unat m)"
    using pos dm nd small by (rule fixed_point_exact_64_small)
  ultimately show False using no by simp
qed

section \<open>Polling the counter ring\<close>

















end
